theory Spec2Isabelle
  imports Main "HOL-Library.State_Monad"
begin

section \<open>Text primitives of the host language\<close>

text \<open>
  A Python \<open>str\<close> is modelled as a \<open>string\<close>, one \<open>char\<close> per code point (the
  code points below 256). \<open>is_space\<close> lists the code points of that range that
  \<open>str.strip()\<close> removes: tab, line feed, vertical tab, form feed, carriage return,
  the four separators 0x1C..0x1F, space, next line (0x85) and no-break space (0xA0).
\<close>

definition is_space :: "char \<Rightarrow> bool" where
  "is_space c = (c \<in> set [CHR 0x09, CHR 0x0A, CHR 0x0B, CHR 0x0C, CHR 0x0D,
                           CHR 0x1C, CHR 0x1D, CHR 0x1E, CHR 0x1F, CHR 0x20,
                           CHR 0x85, CHR 0xA0])"

text \<open>\<open>s.strip()\<close>: drop the whitespace at both ends.\<close>

definition strip :: "string \<Rightarrow> string" where
  "strip s = rev (dropWhile is_space (rev (dropWhile is_space s)))"

text \<open>
  \<open>s.split(sep)\<close> for a non-empty separator: the pieces between the non-overlapping
  occurrences of \<open>sep\<close>, found left to right; always at least one piece. \<open>cur\<close> is the
  piece being read. (Python raises ValueError on an empty separator; the source only
  splits on the two constants below.)
\<close>

function py_split_from :: "string \<Rightarrow> string \<Rightarrow> string \<Rightarrow> string list" where
  "py_split_from sep cur s =
     (if s = [] then [cur]
      else if sep \<noteq> [] \<and> take (length sep) s = sep
           then cur # py_split_from sep [] (drop (length sep) s)
      else py_split_from sep (cur @ [hd s]) (tl s))"
  by pat_completeness auto
termination
  by (relation "measure (\<lambda>(sep, cur, s). length s)") auto

declare py_split_from.simps [simp del]

definition py_split :: "string \<Rightarrow> string \<Rightarrow> string list" where
  "py_split sep s = py_split_from sep [] s"

text \<open>\<open>sep.join(xs)\<close>.\<close>

fun py_join :: "string \<Rightarrow> string list \<Rightarrow> string" where
  "py_join sep [] = []"
| "py_join sep [x] = x"
| "py_join sep (x # y # ys) = x @ sep @ py_join sep (y # ys)"

text \<open>
  \<open>xs[start:stop]\<close> on Python integers: a negative index counts from the end, and
  both ends are clamped to the list.
\<close>

definition slice_index :: "int \<Rightarrow> int \<Rightarrow> int" where
  "slice_index n i = (if i < 0 then max 0 (i + n) else min i n)"

definition py_slice :: "'a list \<Rightarrow> int \<Rightarrow> int \<Rightarrow> 'a list" where
  "py_slice xs start stop =
     (let n = int (length xs); lo = slice_index n start; hi = slice_index n stop
      in take (nat (hi - lo)) (drop (nat lo) xs))"

text \<open>
  \<open>str(n)\<close> for a non-negative integer: its decimal digits. \<open>digit_char\<close> is only
  applied to numbers below ten.
\<close>

definition digit_char :: "nat \<Rightarrow> char" where
  "digit_char d = ''0123456789'' ! d"

fun str_nat :: "nat \<Rightarrow> string" where
  "str_nat n = (if n < 10 then [digit_char n] else str_nat (n div 10) @ [digit_char (n mod 10)])"

declare str_nat.simps [simp del]

definition para_sep :: string where
  "para_sep = [CHR 0x0A, CHR 0x0A]"

section \<open>Configuration and tokenizer\<close>

definition TARGET_CHUNK_SIZE :: int where "TARGET_CHUNK_SIZE = 750"
definition MAX_CHUNK_SIZE :: int where "MAX_CHUNK_SIZE = 1000"
definition MIN_CHUNK_SIZE :: int where "MIN_CHUNK_SIZE = 100"
definition OVERLAP_SIZE :: int where "OVERLAP_SIZE = 50"

text \<open>
  \<open>ENCODING\<close> is the tiktoken encoding object, a library outside the repository. It is
  a parameter of the model: any pair of functions \<open>encode\<close> and \<open>decode\<close> over some
  type of tokens. The one thing assumed about them is that they return: the library can
  raise on a text (one that spells a special token), and such a call is outside the
  model. Wherever a statement below says that a function returns a value, it is about
  the calls in which the tokenizer returned.
\<close>

record 't tokenizer =
  encode :: "string \<Rightarrow> 't list"
  decode :: "'t list \<Rightarrow> string"

definition count_tokens :: "'t tokenizer \<Rightarrow> string \<Rightarrow> int" where
  "count_tokens tk text = int (length (encode tk text))"

section \<open>The token-window slicer\<close>

text \<open>
  The \<open>while\<close> loop of \<open>split_text_by_tokens\<close>. It may run forever, so it returns an
  option: \<open>None\<close> is the loop that never leaves. \<open>dec\<close> is what the loop does with each
  window of tokens (the source decodes it to text).
\<close>

partial_function (option) split_loop ::
  "('t list \<Rightarrow> 'a) \<Rightarrow> 't list \<Rightarrow> int \<Rightarrow> int \<Rightarrow> int \<Rightarrow> 'a list \<Rightarrow> 'a list option" where
  "split_loop dec tokens max_tokens overlap start chunks =
     (if start < int (length tokens) then
        (let stop = start + max_tokens;
             chunk_tokens = py_slice tokens start stop;
             chunk_text = dec chunk_tokens;
             chunks' = chunks @ [chunk_text]
         in if stop \<ge> int (length tokens) then Some chunks'
            else split_loop dec tokens max_tokens overlap (stop - overlap) chunks')
      else Some chunks)"

declare split_loop.simps [code]

definition split_text_by_tokens :: "'t tokenizer \<Rightarrow> string \<Rightarrow> int \<Rightarrow> int \<Rightarrow> string list option" where
  "split_text_by_tokens tk text max_tokens overlap =
     split_loop (decode tk) (encode tk text) max_tokens overlap 0 []"

text \<open>The windows of tokens themselves, before decoding: the same loop, keeping each window.\<close>

definition token_windows :: "'t list \<Rightarrow> int \<Rightarrow> int \<Rightarrow> 't list list option" where
  "token_windows tokens max_tokens overlap = split_loop (\<lambda>w. w) tokens max_tokens overlap 0 []"

section \<open>The paragraph packer\<close>

text \<open>
  The paragraphs of a text: \<open>[p.strip() for p in text.split('\n\n') if p.strip()]\<close>.
\<close>

definition paragraphs_of :: "string \<Rightarrow> string list" where
  "paragraphs_of text = map strip (filter (\<lambda>p. strip p \<noteq> []) (py_split para_sep text))"

text \<open>
  The sentences of an oversized paragraph:
  \<open>[s.strip() + '.' for s in paragraph.split('.') if s.strip()]\<close>.
\<close>

definition sentences_of :: "string \<Rightarrow> string list" where
  "sentences_of paragraph =
     map (\<lambda>s. strip s @ ''.'') (filter (\<lambda>s. strip s \<noteq> []) (py_split ''.'' paragraph))"

text \<open>
  The inner \<open>for sentence in sentences\<close> loop; its state is \<open>chunks\<close>, \<open>temp_chunk\<close>
  and \<open>temp_tokens\<close>.
\<close>

fun sentence_loop ::
  "'t tokenizer \<Rightarrow> string list \<Rightarrow> string list \<Rightarrow> string list \<Rightarrow> int
     \<Rightarrow> string list \<times> string list \<times> int" where
  "sentence_loop tk [] chunks temp_chunk temp_tokens = (chunks, temp_chunk, temp_tokens)"
| "sentence_loop tk (sentence # rest) chunks temp_chunk temp_tokens =
     (let sent_tokens = count_tokens tk sentence in
      if temp_tokens + sent_tokens > MAX_CHUNK_SIZE then
        sentence_loop tk rest
          (if temp_chunk \<noteq> [] then chunks @ [py_join '' '' temp_chunk] else chunks)
          [sentence] sent_tokens
      else sentence_loop tk rest chunks (temp_chunk @ [sentence]) (temp_tokens + sent_tokens))"

text \<open>The sentence fallback for one oversized paragraph (lines 130 to 147).\<close>

definition split_large_paragraph :: "'t tokenizer \<Rightarrow> string \<Rightarrow> string list \<Rightarrow> string list" where
  "split_large_paragraph tk paragraph chunks =
     (case sentence_loop tk (sentences_of paragraph) chunks [] 0 of
        (chunks', temp_chunk, temp_tokens) \<Rightarrow>
          if temp_chunk \<noteq> [] then chunks' @ [py_join '' '' temp_chunk] else chunks')"

text \<open>
  The outer \<open>for paragraph in paragraphs\<close> loop; its state is \<open>chunks\<close>,
  \<open>current_chunk\<close> and \<open>current_tokens\<close>.
\<close>

fun paragraph_loop ::
  "'t tokenizer \<Rightarrow> int \<Rightarrow> string list \<Rightarrow> string list \<Rightarrow> string list \<Rightarrow> int
     \<Rightarrow> string list \<times> string list \<times> int" where
  "paragraph_loop tk target_size [] chunks current_chunk current_tokens =
     (chunks, current_chunk, current_tokens)"
| "paragraph_loop tk target_size (paragraph # rest) chunks current_chunk current_tokens =
     (let para_tokens = count_tokens tk paragraph in
      if para_tokens > MAX_CHUNK_SIZE then
        (if current_chunk \<noteq> [] then
           paragraph_loop tk target_size rest
             (split_large_paragraph tk paragraph (chunks @ [py_join para_sep current_chunk])) [] 0
         else
           paragraph_loop tk target_size rest
             (split_large_paragraph tk paragraph chunks) current_chunk current_tokens)
      else if current_tokens + para_tokens > target_size \<and> current_chunk \<noteq> [] then
        paragraph_loop tk target_size rest
          (chunks @ [py_join para_sep current_chunk]) [paragraph] para_tokens
      else
        paragraph_loop tk target_size rest
          chunks (current_chunk @ [paragraph]) (current_tokens + para_tokens))"

definition chunk_by_paragraphs :: "'t tokenizer \<Rightarrow> string \<Rightarrow> int \<Rightarrow> string list" where
  "chunk_by_paragraphs tk text target_size =
     (case paragraph_loop tk target_size (paragraphs_of text) [] [] 0 of
        (chunks, current_chunk, current_tokens) \<Rightarrow>
          if current_chunk \<noteq> [] then chunks @ [py_join para_sep current_chunk] else chunks)"

section \<open>Documents and chunks\<close>

text \<open>
  A document is the dictionary read from one JSON file. It is taken as the input
  contract gives it: the keys \<open>id\<close>, \<open>title\<close>, \<open>category\<close>, \<open>content\<close> and \<open>tags\<close>
  present (strings, and a list of strings), the keys \<open>source\<close>, \<open>url\<close> and
  \<open>difficulty\<close> present or absent. The fields carry the prefix \<open>key_\<close>.
\<close>

record document =
  key_id :: string
  key_title :: string
  key_category :: string
  key_tags :: "string list"
  key_content :: string
  key_source :: "string option"
  key_url :: "string option"
  key_difficulty :: "string option"

text \<open>The \<open>metadata\<close> dictionary of a chunk; its keys carry the prefix \<open>md_\<close>.\<close>

record chunk_metadata =
  md_document_id :: string
  md_title :: string
  md_category :: string
  md_source :: string
  md_url :: string
  md_tags :: "string list"
  md_difficulty :: string
  md_chunk_index :: nat
  md_total_chunks :: nat

record chunk =
  chunk_id :: string
  content :: string
  token_count :: int
  chunk_index :: nat
  metadata :: chunk_metadata

text \<open>
  \<open>chunk_document\<close> receives the document by reference. The model threads the
  document through the function as its state; the two ways the source touches it are
  the subscript \<open>doc_data[key]\<close> and \<open>doc_data.get(key, default)\<close>.
\<close>

definition getitem :: "(document \<Rightarrow> 'a) \<Rightarrow> (document, 'a) state" where
  "getitem key = State (\<lambda>doc_data. (key doc_data, doc_data))"

definition dict_get :: "(document \<Rightarrow> 'a option) \<Rightarrow> 'a \<Rightarrow> (document, 'a) state" where
  "dict_get key default_value =
     State (\<lambda>doc_data. (case key doc_data of None \<Rightarrow> default_value | Some v \<Rightarrow> v, doc_data))"

text \<open>
  The first loop of \<open>chunk_document\<close>: a unit whose own token count is above
  \<open>MAX_CHUNK_SIZE\<close> is replaced by its token windows.
\<close>

fun final_loop :: "'t tokenizer \<Rightarrow> string list \<Rightarrow> string list \<Rightarrow> string list option" where
  "final_loop tk [] final_chunks = Some final_chunks"
| "final_loop tk (chunk_text # rest) final_chunks =
     (let token_count = count_tokens tk chunk_text in
      if token_count > MAX_CHUNK_SIZE then
        (case split_text_by_tokens tk chunk_text TARGET_CHUNK_SIZE OVERLAP_SIZE of
           None \<Rightarrow> None
         | Some sub_chunks \<Rightarrow> final_loop tk rest (final_chunks @ sub_chunks))
      else final_loop tk rest (final_chunks @ [chunk_text]))"

text \<open>The construction of one \<open>Chunk\<close> object (lines 198 to 214).\<close>

definition make_chunk :: "'t tokenizer \<Rightarrow> string \<Rightarrow> nat \<Rightarrow> nat \<Rightarrow> string \<Rightarrow> (document, chunk) state" where
  "make_chunk tk doc_id total_chunks idx chunk_text = do {
     title \<leftarrow> getitem key_title;
     category \<leftarrow> getitem key_category;
     source \<leftarrow> dict_get key_source '''';
     url \<leftarrow> dict_get key_url '''';
     tags \<leftarrow> getitem key_tags;
     difficulty \<leftarrow> dict_get key_difficulty '''';
     State_Monad.return
       \<lparr> chunk_id = doc_id @ ''_chunk_'' @ str_nat idx,
         content = chunk_text,
         token_count = count_tokens tk chunk_text,
         chunk_index = idx,
         metadata = \<lparr> md_document_id = doc_id, md_title = title, md_category = category,
                      md_source = source, md_url = url, md_tags = tags,
                      md_difficulty = difficulty, md_chunk_index = idx,
                      md_total_chunks = total_chunks \<rparr> \<rparr>
   }"

text \<open>The second loop: \<open>for idx, chunk_text in enumerate(final_chunks)\<close>.\<close>

fun build_loop ::
  "'t tokenizer \<Rightarrow> string \<Rightarrow> nat \<Rightarrow> (nat \<times> string) list \<Rightarrow> chunk list \<Rightarrow> (document, chunk list) state" where
  "build_loop tk doc_id total_chunks [] chunks = State_Monad.return chunks"
| "build_loop tk doc_id total_chunks ((idx, chunk_text) # rest) chunks = do {
     chunk \<leftarrow> make_chunk tk doc_id total_chunks idx chunk_text;
     build_loop tk doc_id total_chunks rest (chunks @ [chunk])
   }"

definition chunk_document :: "'t tokenizer \<Rightarrow> (document, chunk list option) state" where
  "chunk_document tk = do {
     content \<leftarrow> getitem key_content;
     doc_id \<leftarrow> getitem key_id;
     case final_loop tk (chunk_by_paragraphs tk content TARGET_CHUNK_SIZE) [] of
       None \<Rightarrow> State_Monad.return None
     | Some final_chunks \<Rightarrow> do {
         chunks \<leftarrow> build_loop tk doc_id (length final_chunks) (enumerate 0 final_chunks) [];
         State_Monad.return (Some chunks)
       }
   }"

text \<open>What a call returns, and the document it leaves behind.\<close>

definition chunks_of :: "'t tokenizer \<Rightarrow> document \<Rightarrow> chunk list option" where
  "chunks_of tk doc_data = fst (run_state (chunk_document tk) doc_data)"

definition document_after :: "'t tokenizer \<Rightarrow> document \<Rightarrow> document" where
  "document_after tk doc_data = snd (run_state (chunk_document tk) doc_data)"

section \<open>The greedy rule of the specification\<close>

text \<open>
  The packing rule as the specification words it, for comparison with \<open>paragraph_loop\<close>.
  For each paragraph: if adding it would push the running token total above
  \<open>target_size\<close> and the current group is not empty, close the current group as one unit
  and start a new group with this paragraph; else append it to the current group and add
  its tokens to the running total. At the end, flush a non-empty trailing group as the
  final unit. The state is the closed units, the current group and the running total.
\<close>

fun greedy_pack ::
  "(string \<Rightarrow> int) \<Rightarrow> int \<Rightarrow> string list \<Rightarrow> string list list \<Rightarrow> string list \<Rightarrow> int
     \<Rightarrow> string list list \<times> string list \<times> int" where
  "greedy_pack cnt target_size [] units current_group running_total =
     (units, current_group, running_total)"
| "greedy_pack cnt target_size (p # ps) units current_group running_total =
     (if running_total + cnt p > target_size \<and> current_group \<noteq> []
      then greedy_pack cnt target_size ps (units @ [current_group]) [p] (cnt p)
      else greedy_pack cnt target_size ps units (current_group @ [p]) (running_total + cnt p))"

definition flush_group :: "string list list \<times> string list \<times> int \<Rightarrow> string list list" where
  "flush_group s =
     (case s of (units, current_group, running_total) \<Rightarrow>
        if current_group \<noteq> [] then units @ [current_group] else units)"

section \<open>A tokenizer to run the model on\<close>

text \<open>One token per character: \<open>encode\<close> and \<open>decode\<close> are the identity.\<close>

definition char_tokenizer :: "char tokenizer" where
  "char_tokenizer = \<lparr> encode = (\<lambda>s. s), decode = (\<lambda>ts. ts) \<rparr>"

definition sample_document :: "string \<Rightarrow> document" where
  "sample_document text =
     \<lparr> key_id = ''doc'', key_title = ''Title'', key_category = ''cat'', key_tags = [''tag''],
       key_content = text, key_source = Some ''src'', key_url = None, key_difficulty = None \<rparr>"


section \<open>Properties of the token-window slicer\<close>

text \<open>A slice with a non-negative start and a non-negative width.\<close>

lemma py_slice_window:
  "0 \<le> s \<Longrightarrow> 0 \<le> m \<Longrightarrow> py_slice xs s (s + m) = take (nat m) (drop (nat s) xs)"
proof -
  assume s: "0 \<le> s" and m: "0 \<le> m"
  let ?n = "int (length xs)"
  have lo: "slice_index ?n s = min s ?n" using s by (simp add: slice_index_def)
  have hi: "slice_index ?n (s + m) = min (s + m) ?n" using s m by (simp add: slice_index_def)
  show ?thesis
  proof (cases "s \<le> ?n")
    case False
    then show ?thesis using s m by (simp add: py_slice_def Let_def lo hi)
  next
    case True
    show ?thesis
    proof (cases "s + m \<le> ?n")
      case True
      then have "nat (min (s + m) ?n - min s ?n) = nat m" using s m by simp
      then show ?thesis using s True by (simp add: py_slice_def Let_def lo hi min_def)
    next
      case False
      then have "nat (min (s + m) ?n - min s ?n) = length xs - nat s"
        using s m True by (simp add: min_def)
      moreover have "length xs - nat s \<le> nat m" using False s m by linarith
      ultimately show ?thesis using s True by (simp add: py_slice_def Let_def lo hi min_def)
    qed
  qed
qed

text \<open>
  With a positive window and an overlap below it, the loop started at \<open>s\<close> returns:
  it emits \<open>n\<close> windows, window \<open>i\<close> starting at \<open>s + i * (m - ov)\<close>; the last one
  reaches the end of the tokens and no earlier one does.
\<close>

lemma split_loop_windows:
  assumes "0 < m" "0 \<le> ov" "ov < m" "0 \<le> s"
  shows "\<exists>n. split_loop dec tokens m ov s acc =
              Some (acc @ map (\<lambda>i. dec (take (nat m) (drop (nat (s + int i * (m - ov))) tokens))) [0..<n])
           \<and> (int (length tokens) \<le> s \<longrightarrow> n = 0)
           \<and> (s < int (length tokens) \<longrightarrow>
                0 < n \<and> int (length tokens) \<le> s + int (n - 1) * (m - ov) + m
                \<and> (\<forall>i. Suc i < n \<longrightarrow> s + int i * (m - ov) + m < int (length tokens)))"
  using assms(4)
proof (induction "nat (int (length tokens) - s)" arbitrary: s acc rule: less_induct)
  case less
  show ?case
  proof (cases "s < int (length tokens)")
    case False
    then have "split_loop dec tokens m ov s acc = Some acc"
      by (subst split_loop.simps) simp
    then show ?thesis using False by (intro exI[of _ 0]) simp
  next
    case True
    note inrange = this
    show ?thesis
    proof (cases "int (length tokens) \<le> s + m")
      case True
      have "split_loop dec tokens m ov s acc = Some (acc @ [dec (take (nat m) (drop (nat s) tokens))])"
        using True inrange less.prems assms(1)
        by (subst split_loop.simps) (simp add: Let_def py_slice_window)
      then show ?thesis using True inrange by (intro exI[of _ 1]) simp
    next
      case False
      let ?s' = "s + m - ov"
      let ?acc' = "acc @ [dec (take (nat m) (drop (nat s) tokens))]"
      have step: "split_loop dec tokens m ov s acc = split_loop dec tokens m ov ?s' ?acc'"
        using False inrange less.prems assms(1)
        by (subst split_loop.simps) (simp add: Let_def py_slice_window)
      have lt: "nat (int (length tokens) - ?s') < nat (int (length tokens) - s)"
        using assms inrange by linarith
      have s'0: "0 \<le> ?s'" using assms less.prems by linarith
      from less.hyps[OF lt s'0, of ?acc'] obtain n where
        n1: "split_loop dec tokens m ov ?s' ?acc' =
              Some (?acc' @ map (\<lambda>i. dec (take (nat m) (drop (nat (?s' + int i * (m - ov))) tokens))) [0..<n])"
        and n2: "int (length tokens) \<le> ?s' \<longrightarrow> n = 0"
        and n3: "?s' < int (length tokens) \<longrightarrow>
                0 < n \<and> int (length tokens) \<le> ?s' + int (n - 1) * (m - ov) + m
                \<and> (\<forall>i. Suc i < n \<longrightarrow> ?s' + int i * (m - ov) + m < int (length tokens))"
        by blast
      have s'lt: "?s' < int (length tokens)" using False assms by linarith
      have shift: "\<And>i. ?s' + int i * (m - ov) = s + int (Suc i) * (m - ov)"
        by (simp add: algebra_simps)
      have maps: "[dec (take (nat m) (drop (nat s) tokens))] @
              map (\<lambda>i. dec (take (nat m) (drop (nat (?s' + int i * (m - ov))) tokens))) [0..<n]
            = map (\<lambda>i. dec (take (nat m) (drop (nat (s + int i * (m - ov))) tokens))) [0..<Suc n]"
        unfolding shift
        by (simp add: upt_conv_Cons map_Suc_upt[symmetric] del: upt_Suc)
      have res: "split_loop dec tokens m ov s acc =
          Some (acc @ map (\<lambda>i. dec (take (nat m) (drop (nat (s + int i * (m - ov))) tokens))) [0..<Suc n])"
        using step n1 maps by simp
      have npos: "0 < n" using n3 s'lt by blast
      have last: "int (length tokens) \<le> s + int (Suc n - 1) * (m - ov) + m"
      proof -
        have "int (length tokens) \<le> ?s' + int (n - 1) * (m - ov) + m" using n3 s'lt by blast
        also have "?s' + int (n - 1) * (m - ov) = s + int (Suc (n - 1)) * (m - ov)" by (rule shift)
        finally show ?thesis using npos by simp
      qed
      have mid: "\<forall>i. Suc i < Suc n \<longrightarrow> s + int i * (m - ov) + m < int (length tokens)"
      proof (intro allI impI)
        fix i assume "Suc i < Suc n"
        show "s + int i * (m - ov) + m < int (length tokens)"
        proof (cases i)
          case 0
          then show ?thesis using False by simp
        next
          case (Suc j)
          then have "Suc j < n" using \<open>Suc i < Suc n\<close> by simp
          then have "?s' + int j * (m - ov) + m < int (length tokens)" using n3 s'lt by blast
          then show ?thesis unfolding shift Suc .
        qed
      qed
      show ?thesis using res last mid inrange by (intro exI[of _ "Suc n"]) simp
    qed
  qed
qed


text \<open>
  With an overlap that is not below the window, the loop never returns once a window
  ends before the tokens do.
\<close>

lemma split_loop_stuck:
  assumes "split_loop dec tokens m ov s acc = Some r"
  shows "\<not> (m \<le> ov \<and> s + m < int (length tokens) \<and> s < int (length tokens))"
  using assms
proof (induction rule: split_loop.raw_induct[rotated 1, consumes 1])
  case (1 f dec tokens max_tokens overlap start chunks r)
  show ?case
  proof
    assume stuck: "max_tokens \<le> overlap \<and> start + max_tokens < int (length tokens) \<and> start < int (length tokens)"
    then have "f dec tokens max_tokens overlap (start + max_tokens - overlap)
                 (chunks @ [dec (py_slice tokens start (start + max_tokens))]) = Some r"
      using 1(2) by (simp add: Let_def)
    from 1(1)[OF this] stuck show False by simp
  qed
qed

lemma split_loop_map_aux:
  assumes "split_loop dec0 tokens m ov s acc = Some ws" "dec0 = (\<lambda>w. w)"
  shows "split_loop dec tokens m ov s (map dec acc) = Some (map dec ws)"
  using assms
proof (induction rule: split_loop.raw_induct[rotated 1, consumes 1])
  case (1 f dec0 tokens max_tokens overlap start chunks r)
  note IH = 1(1) and step = 1(2) and d = 1(3)
  show ?case
  proof (cases "start < int (length tokens)")
    case False
    then show ?thesis using step by (subst split_loop.simps) simp
  next
    case True
    show ?thesis
    proof (cases "int (length tokens) \<le> start + max_tokens")
      case t: True
      then show ?thesis using step True d by (subst split_loop.simps) (auto simp: Let_def)
    next
      case False
      then have "f dec0 tokens max_tokens overlap (start + max_tokens - overlap)
                   (chunks @ [dec0 (py_slice tokens start (start + max_tokens))]) = Some r"
        using step True by (simp add: Let_def)
      from IH[OF this d] d
      have "split_loop dec tokens max_tokens overlap (start + max_tokens - overlap)
              (map dec chunks @ [dec (py_slice tokens start (start + max_tokens))]) = Some (map dec r)"
        by simp
      then show ?thesis using True False by (subst split_loop.simps) (simp add: Let_def)
    qed
  qed
qed

text \<open>The text windows are the decoded token windows.\<close>

lemma split_text_by_tokens_windows:
  assumes "token_windows (encode tk text) m ov = Some ws"
  shows "split_text_by_tokens tk text m ov = Some (map (decode tk) ws)"
  using split_loop_map_aux[of "\<lambda>w. w" "encode tk text" m ov 0 "[]" ws "decode tk"] assms
  by (simp add: token_windows_def split_text_by_tokens_def)

text \<open>
  The windows of a text, from the start: window \<open>i\<close> is the \<open>m\<close> tokens (fewer at the
  end of the text) from position \<open>i * (m - ov)\<close>.
\<close>

lemma token_windows_shape:
  assumes "0 < m" "0 \<le> ov" "ov < m"
  shows "\<exists>n. token_windows tokens m ov =
                Some (map (\<lambda>i. take (nat m) (drop (i * nat (m - ov)) tokens)) [0..<n])
           \<and> (tokens = [] \<longrightarrow> n = 0)
           \<and> (tokens \<noteq> [] \<longrightarrow>
                0 < n \<and> length tokens \<le> (n - 1) * nat (m - ov) + nat m
                \<and> (\<forall>i. Suc i < n \<longrightarrow> i * nat (m - ov) + nat m < length tokens))"
proof -
  from split_loop_windows[OF assms, of 0 "\<lambda>w. w" tokens "[]"] obtain n where
    n1: "split_loop (\<lambda>w. w) tokens m ov 0 [] =
           Some ([] @ map (\<lambda>i. take (nat m) (drop (nat (0 + int i * (m - ov))) tokens)) [0..<n])"
    and n2: "int (length tokens) \<le> 0 \<longrightarrow> n = 0"
    and n3: "0 < int (length tokens) \<longrightarrow>
                0 < n \<and> int (length tokens) \<le> 0 + int (n - 1) * (m - ov) + m
                \<and> (\<forall>i. Suc i < n \<longrightarrow> 0 + int i * (m - ov) + m < int (length tokens))"
    by auto
  have conv: "\<And>i. nat (0 + int i * (m - ov)) = i * nat (m - ov)"
    using assms by (simp add: nat_mult_distrib)
  have iconv: "\<And>i. int i * (m - ov) + m = int (i * nat (m - ov) + nat m)"
    using assms by simp
  have a: "token_windows tokens m ov = Some (map (\<lambda>i. take (nat m) (drop (i * nat (m - ov)) tokens)) [0..<n])"
    using n1 unfolding conv token_windows_def by simp
  have b: "tokens = [] \<longrightarrow> n = 0" using n2 by simp
  have c: "tokens \<noteq> [] \<longrightarrow>
                0 < n \<and> length tokens \<le> (n - 1) * nat (m - ov) + nat m
                \<and> (\<forall>i. Suc i < n \<longrightarrow> i * nat (m - ov) + nat m < length tokens)"
  proof
    assume "tokens \<noteq> []"
    then have pos: "0 < int (length tokens)" by simp
    from n3 pos have p1: "0 < n" and p2: "int (length tokens) \<le> int (n - 1) * (m - ov) + m"
      and p3: "\<forall>i. Suc i < n \<longrightarrow> int i * (m - ov) + m < int (length tokens)" by auto
    from p2 have q2: "length tokens \<le> (n - 1) * nat (m - ov) + nat m"
      unfolding iconv by linarith
    from p3 have q3: "\<forall>i. Suc i < n \<longrightarrow> i * nat (m - ov) + nat m < length tokens"
      unfolding iconv by (metis of_nat_less_iff)
    show "0 < n \<and> length tokens \<le> (n - 1) * nat (m - ov) + nat m
                \<and> (\<forall>i. Suc i < n \<longrightarrow> i * nat (m - ov) + nat m < length tokens)"
      using p1 q2 q3 by blast
  qed
  show ?thesis using a b c by blast
qed

text \<open>Every position lies in some window of a row of windows that reaches it.\<close>

lemma window_cover:
  assumes "0 < n" "0 < step"
  shows "\<exists>i<n. i * step \<le> (j::nat) \<and> (Suc i = n \<or> j < Suc i * step)"
  using assms(1)
proof (induction n)
  case 0
  then show ?case by simp
next
  case (Suc n)
  show ?case
  proof (cases "n = 0")
    case True
    then show ?thesis by simp
  next
    case False
    then obtain i where i: "i < n" "i * step \<le> j" "Suc i = n \<or> j < Suc i * step"
      using Suc.IH by auto
    show ?thesis
    proof (cases "n * step \<le> j")
      case True
      then show ?thesis by (intro exI[of _ n]) simp
    next
      case False
      have "j < Suc i * step"
        using i(3) False by auto
      then show ?thesis using i by (intro exI[of _ i]) simp
    qed
  qed
qed

lemma take_length_take: "take (length (take m xs)) xs = take m xs"
  by (cases "m \<le> length xs") (simp_all add: min_def)

section \<open>Claims about the token-window slicer\<close>

text \<open>
  Claim C6. For a text and an overlap with \<open>0 \<le> overlap < max_tokens\<close>, the slicer
  returns, its text windows are the decoded token windows, and for any two consecutive
  token windows the last \<open>overlap\<close> tokens of the first are the first \<open>overlap\<close>
  tokens of the second, both of length \<open>overlap\<close>. This holds for the final window as
  well, short or not.
\<close>

theorem C6_consecutive_windows_overlap:
  assumes "0 \<le> overlap" "overlap < max_tokens"
  shows "\<exists>ws. token_windows (encode tk text) max_tokens overlap = Some ws
           \<and> split_text_by_tokens tk text max_tokens overlap = Some (map (decode tk) ws)
           \<and> (\<forall>i. Suc i < length ws \<longrightarrow>
                 drop (length (ws ! i) - nat overlap) (ws ! i) = take (nat overlap) (ws ! Suc i)
                 \<and> length (take (nat overlap) (ws ! Suc i)) = nat overlap)"
proof -
  define T where "T = encode tk text"
  define M where "M = nat max_tokens"
  define V where "V = nat overlap"
  define st where "st = nat (max_tokens - overlap)"
  have m: "0 < max_tokens" using assms by simp
  have st: "st = M - V" and VM: "V < M"
    using assms by (auto simp: M_def V_def st_def)
  from token_windows_shape[OF m assms, of "encode tk text"] obtain n where
    ws: "token_windows T max_tokens overlap = Some (map (\<lambda>i. take M (drop (i * st) T)) [0..<n])"
    and mid: "T \<noteq> [] \<longrightarrow> (\<forall>i. Suc i < n \<longrightarrow> i * st + M < length T)"
    and emp: "T = [] \<longrightarrow> n = 0"
    unfolding T_def M_def st_def by blast
  define ws where "ws = map (\<lambda>i. take M (drop (i * st) T)) [0..<n]"
  have ov: "drop (length (ws ! i) - V) (ws ! i) = take V (ws ! Suc i)
            \<and> length (take V (ws ! Suc i)) = V" if i: "Suc i < length ws" for i
  proof -
    have in': "Suc i < n" using i by (simp add: ws_def)
    then have ne: "T \<noteq> []" using emp by auto
    have full: "i * st + M < length T" using mid ne in' by blast
    have wi: "ws ! i = take M (drop (i * st) T)" using in' by (simp add: ws_def)
    have wsi: "ws ! Suc i = take M (drop (Suc i * st) T)" using in' by (simp add: ws_def)
    have len: "length (ws ! i) = M" unfolding wi using full by simp
    have e: "M - (M - V) = V" using VM by simp
    have pos: "M - V + i * st = Suc i * st" using st by simp
    have "drop (M - V) (ws ! i) = take V (drop (M - V) (drop (i * st) T))"
      unfolding wi by (simp only: drop_take e)
    also have "\<dots> = take V (drop (Suc i * st) T)"
      by (simp only: drop_drop pos)
    also have "\<dots> = take V (ws ! Suc i)"
      unfolding wsi using VM by (simp add: min_def)
    finally have a: "drop (length (ws ! i) - V) (ws ! i) = take V (ws ! Suc i)"
      unfolding len .
    have "Suc i * st + V = i * st + M" using st VM by simp
    then have "V \<le> length (drop (Suc i * st) T)" using full by simp
    then have b: "length (take V (ws ! Suc i)) = V" unfolding wsi using VM by simp
    show ?thesis using a b by blast
  qed
  have "token_windows (encode tk text) max_tokens overlap = Some ws"
    using ws unfolding ws_def T_def .
  then show ?thesis
    using split_text_by_tokens_windows[of tk "text" max_tokens overlap ws] ov
    unfolding V_def by blast
qed

theorem C6_consecutive_windows_overlap_witness:
  "(0::int) \<le> 1 \<and> (1::int) < 4
   \<and> token_windows (encode char_tokenizer ''abcdefghij'') 4 1 = Some [''abcd'', ''defg'', ''ghij'']
   \<and> split_text_by_tokens char_tokenizer ''abcdefghij'' 4 1 = Some [''abcd'', ''defg'', ''ghij'']
   \<and> drop (length ''abcd'' - nat 1) ''abcd'' = take (nat 1) ''defg''
   \<and> drop (length ''defg'' - nat 1) ''defg'' = take (nat 1) ''ghij''"
proof -
  have h1: "(0::int) \<le> 1" and h2: "(1::int) < 4" by simp_all
  have run: "token_windows (encode char_tokenizer ''abcdefghij'') 4 1 = Some [''abcd'', ''defg'', ''ghij'']"
    by code_simp
  from C6_consecutive_windows_overlap[OF h1 h2, of char_tokenizer "''abcdefghij''"] run
  have dtext: "split_text_by_tokens char_tokenizer ''abcdefghij'' 4 1
               = Some (map (decode char_tokenizer) [''abcd'', ''defg'', ''ghij''])"
    and ov: "\<forall>i. Suc i < length [''abcd'', ''defg'', ''ghij''] \<longrightarrow>
               drop (length ([''abcd'', ''defg'', ''ghij''] ! i) - nat 1) ([''abcd'', ''defg'', ''ghij''] ! i)
                 = take (nat 1) ([''abcd'', ''defg'', ''ghij''] ! Suc i)
               \<and> length (take (nat 1) ([''abcd'', ''defg'', ''ghij''] ! Suc i)) = nat 1"
    by auto
  have dec: "map (decode char_tokenizer) [''abcd'', ''defg'', ''ghij''] = [''abcd'', ''defg'', ''ghij'']"
    by (simp add: char_tokenizer_def)
  from ov[rule_format, of 0] have o0: "drop (length ''abcd'' - nat 1) ''abcd'' = take (nat 1) ''defg''"
    by simp
  from ov[rule_format, of 1] have o1: "drop (length ''defg'' - nat 1) ''defg'' = take (nat 1) ''ghij''"
    by simp
  show ?thesis using h1 h2 run dtext dec o0 o1 by simp
qed

text \<open>
  Claim C10. With \<open>max_tokens > 0\<close> and \<open>0 \<le> overlap < max_tokens\<close> the slicer
  returns on every text. When the text has tokens, the last window is not empty and is
  a suffix of the token sequence, so its end is the end of the text; and every position
  \<open>j\<close> of the token sequence lies inside some window, which is the slice of the tokens
  starting at some \<open>p \<le> j\<close>.
\<close>

theorem C10_slicer_terminates_and_reaches_end:
  assumes "0 < max_tokens" "0 \<le> overlap" "overlap < max_tokens"
  shows "\<exists>ws. token_windows (encode tk text) max_tokens overlap = Some ws
           \<and> split_text_by_tokens tk text max_tokens overlap = Some (map (decode tk) ws)
           \<and> (encode tk text \<noteq> [] \<longrightarrow>
                 ws \<noteq> [] \<and> last ws \<noteq> [] \<and> (\<exists>k. last ws = drop k (encode tk text)))
           \<and> (\<forall>j. j < length (encode tk text) \<longrightarrow>
                 (\<exists>i p. i < length ws \<and> p \<le> j \<and> j < p + length (ws ! i)
                        \<and> ws ! i = take (length (ws ! i)) (drop p (encode tk text))))"
proof -
  define T where "T = encode tk text"
  define M where "M = nat max_tokens"
  define st where "st = nat (max_tokens - overlap)"
  have st: "0 < st" "st \<le> M" using assms by (auto simp: M_def st_def)
  from token_windows_shape[OF assms, of "encode tk text"] obtain n where
    ws: "token_windows T max_tokens overlap = Some (map (\<lambda>i. take M (drop (i * st) T)) [0..<n])"
    and ne: "T \<noteq> [] \<longrightarrow> 0 < n \<and> length T \<le> (n - 1) * st + M
                \<and> (\<forall>i. Suc i < n \<longrightarrow> i * st + M < length T)"
    unfolding T_def M_def st_def by blast
  define ws where "ws = map (\<lambda>i. take M (drop (i * st) T)) [0..<n]"
  have fin: "ws \<noteq> [] \<and> last ws \<noteq> [] \<and> (\<exists>k. last ws = drop k T)" if T: "T \<noteq> []"
  proof -
    from ne T have n: "0 < n" and reach: "length T \<le> (n - 1) * st + M"
      and mid: "\<forall>i. Suc i < n \<longrightarrow> i * st + M < length T" by auto
    have nonempty: "ws \<noteq> []" using n by (simp add: ws_def)
    have "last ws = ws ! (n - 1)" using nonempty by (simp add: last_conv_nth ws_def)
    also have "\<dots> = take M (drop ((n - 1) * st) T)" using n by (simp add: ws_def)
    also have "\<dots> = drop ((n - 1) * st) T" using reach by simp
    finally have lastw: "last ws = drop ((n - 1) * st) T" .
    have inside: "(n - 1) * st < length T"
    proof (cases "n = 1")
      case True
      then show ?thesis using T by simp
    next
      case False
      then obtain i where i: "n = Suc (Suc i)" using n by (metis One_nat_def Suc_pred neq0_conv)
      then have "i * st + M < length T" using mid by simp
      moreover have "(n - 1) * st = i * st + st" using i by simp
      ultimately show ?thesis using st by linarith
    qed
    have "last ws \<noteq> []" unfolding lastw using inside by simp
    then show ?thesis using nonempty lastw by blast
  qed
  have cov: "\<exists>i p. i < length ws \<and> p \<le> j \<and> j < p + length (ws ! i)
                \<and> ws ! i = take (length (ws ! i)) (drop p T)" if j: "j < length T" for j
  proof -
    have T: "T \<noteq> []" using j by auto
    from ne T have n: "0 < n" and reach: "length T \<le> (n - 1) * st + M" by auto
    from window_cover[OF n st(1), of j] obtain i where
      i: "i < n" "i * st \<le> j" "Suc i = n \<or> j < Suc i * st" by blast
    define p where "p = i * st"
    have wi: "ws ! i = take M (drop p T)" using i(1) by (simp add: ws_def p_def)
    have len: "length (ws ! i) = min (length T - p) M" unfolding wi by simp
    have jM: "j < p + M"
    proof (cases "Suc i = n")
      case True
      then have "n - 1 = i" by simp
      then have "length T \<le> p + M" using reach by (simp add: p_def)
      then show ?thesis using j by linarith
    next
      case False
      then have "j < p + st" using i(3) by (simp add: p_def)
      then show ?thesis using st by linarith
    qed
    have pj: "p \<le> j" using i(2) by (simp add: p_def)
    have a: "j < p + length (ws ! i)" unfolding len using jM j pj by (simp add: min_def)
    have b: "ws ! i = take (length (ws ! i)) (drop p T)"
      unfolding wi by (simp only: take_length_take)
    have "i < length ws" using i(1) by (simp add: ws_def)
    then show ?thesis using pj a b by blast
  qed
  have "token_windows (encode tk text) max_tokens overlap = Some ws"
    using ws unfolding ws_def T_def .
  then show ?thesis
    using split_text_by_tokens_windows[of tk "text" max_tokens overlap ws] fin cov
    unfolding T_def by blast
qed

theorem C10_slicer_terminates_and_reaches_end_witness:
  "(0::int) < 4 \<and> (0::int) \<le> 1 \<and> (1::int) < 4
   \<and> token_windows (encode char_tokenizer ''abcdefghijk'') 4 1 = Some [''abcd'', ''defg'', ''ghij'', ''jk'']
   \<and> split_text_by_tokens char_tokenizer ''abcdefghijk'' 4 1 = Some [''abcd'', ''defg'', ''ghij'', ''jk'']
   \<and> (\<exists>k. last [''abcd'', ''defg'', ''ghij'', ''jk''] = drop k ''abcdefghijk'')"
proof -
  have h1: "(0::int) < 4" and h2: "(0::int) \<le> 1" and h3: "(1::int) < 4" by simp_all
  have run: "token_windows (encode char_tokenizer ''abcdefghijk'') 4 1 = Some [''abcd'', ''defg'', ''ghij'', ''jk'']"
    by code_simp
  have enc: "encode char_tokenizer ''abcdefghijk'' = ''abcdefghijk''"
    by (simp add: char_tokenizer_def)
  from C10_slicer_terminates_and_reaches_end[OF h1 h2 h3, of char_tokenizer "''abcdefghijk''"] run
  have dtext: "split_text_by_tokens char_tokenizer ''abcdefghijk'' 4 1
               = Some (map (decode char_tokenizer) [''abcd'', ''defg'', ''ghij'', ''jk''])"
    and fin: "encode char_tokenizer ''abcdefghijk'' \<noteq> [] \<longrightarrow>
                (\<exists>k. last [''abcd'', ''defg'', ''ghij'', ''jk''] = drop k (encode char_tokenizer ''abcdefghijk''))"
    by auto
  have dec: "map (decode char_tokenizer) [''abcd'', ''defg'', ''ghij'', ''jk''] = [''abcd'', ''defg'', ''ghij'', ''jk'']"
    by (simp add: char_tokenizer_def)
  from fin have "\<exists>k. last [''abcd'', ''defg'', ''ghij'', ''jk''] = drop k ''abcdefghijk''"
    unfolding enc by simp
  then show ?thesis using h1 h2 h3 run dtext dec by simp
qed

text \<open>
  Claim C2, as stated, fails: the slicer has no guard. Called with a window of one token
  and an overlap of one token on a text of two tokens, it raises nothing and never
  returns: every iteration starts again at offset 0.
\<close>

theorem C2_slicer_unguarded_counterexample:
  "split_text_by_tokens char_tokenizer ''ab'' 1 1 = None"
proof (cases "split_text_by_tokens char_tokenizer ''ab'' 1 1")
  case None
  then show ?thesis .
next
  case (Some r)
  then have "split_loop (decode char_tokenizer) ''ab'' 1 1 0 [] = Some r"
    by (simp add: split_text_by_tokens_def char_tokenizer_def)
  from split_loop_stuck[OF this] show ?thesis by simp
qed

section \<open>Properties of the record builder\<close>

text \<open>One \<open>Chunk\<close> object, and the document after building it.\<close>

lemma run_make_chunk:
  "run_state (make_chunk tk doc_id total_chunks idx chunk_text) d =
     (\<lparr> chunk_id = doc_id @ ''_chunk_'' @ str_nat idx,
        content = chunk_text,
        token_count = count_tokens tk chunk_text,
        chunk_index = idx,
        metadata = \<lparr> md_document_id = doc_id, md_title = key_title d,
                     md_category = key_category d,
                     md_source = (case key_source d of None \<Rightarrow> '''' | Some v \<Rightarrow> v),
                     md_url = (case key_url d of None \<Rightarrow> '''' | Some v \<Rightarrow> v),
                     md_tags = key_tags d,
                     md_difficulty = (case key_difficulty d of None \<Rightarrow> '''' | Some v \<Rightarrow> v),
                     md_chunk_index = idx, md_total_chunks = total_chunks \<rparr> \<rparr>, d)"
  by (simp add: make_chunk_def getitem_def dict_get_def)

lemma run_build_loop:
  "run_state (build_loop tk doc_id total_chunks xs chunks) d =
     (chunks @ map (\<lambda>(idx, chunk_text).
                      fst (run_state (make_chunk tk doc_id total_chunks idx chunk_text) d)) xs, d)"
proof (induction xs arbitrary: chunks)
  case Nil
  then show ?case by simp
next
  case (Cons x xs)
  obtain idx chunk_text where x: "x = (idx, chunk_text)" by (cases x)
  show ?case unfolding x by (simp add: Cons.IH run_make_chunk)
qed

lemma slicer_fixed_configuration:
  "\<exists>n. split_text_by_tokens tk text TARGET_CHUNK_SIZE OVERLAP_SIZE =
          Some (map (\<lambda>i. decode tk (take 750 (drop (i * 700) (encode tk text)))) [0..<n])
       \<and> (encode tk text = [] \<longrightarrow> n = 0)
       \<and> (encode tk text \<noteq> [] \<longrightarrow> 0 < n \<and> length (encode tk text) \<le> (n - 1) * 700 + 750)"
proof -
  have c: "(0::int) < 750" "(0::int) \<le> 50" "(50::int) < 750" by simp_all
  from token_windows_shape[OF c, of "encode tk text"] obtain n where
    ws: "token_windows (encode tk text) 750 50 =
           Some (map (\<lambda>i. take (nat 750) (drop (i * nat (750 - 50)) (encode tk text))) [0..<n])"
    and e: "encode tk text = [] \<longrightarrow> n = 0"
    and ne: "encode tk text \<noteq> [] \<longrightarrow> 0 < n \<and> length (encode tk text) \<le> (n - 1) * nat (750 - 50) + nat 750"
    by blast
  have "split_text_by_tokens tk text 750 50 =
          Some (map (\<lambda>i. decode tk (take 750 (drop (i * 700) (encode tk text)))) [0..<n])"
    using split_text_by_tokens_windows[OF ws] by (simp add: comp_def)
  then show ?thesis using e ne
    by (intro exI[of _ n]) (simp add: TARGET_CHUNK_SIZE_def OVERLAP_SIZE_def)
qed

text \<open>
  A unit above \<open>MAX_CHUNK_SIZE\<close> has more than 1000 tokens, so the slicer cuts it into
  at least two windows.
\<close>

lemma slicer_fixed_configuration_oversized:
  assumes "count_tokens tk u > MAX_CHUNK_SIZE"
  shows "\<exists>ws. split_text_by_tokens tk u TARGET_CHUNK_SIZE OVERLAP_SIZE = Some ws
            \<and> 2 \<le> length ws
            \<and> ws = map (\<lambda>i. decode tk (take 750 (drop (i * 700) (encode tk u)))) [0..<length ws]"
proof -
  from slicer_fixed_configuration[of tk u] obtain n where
    r: "split_text_by_tokens tk u TARGET_CHUNK_SIZE OVERLAP_SIZE =
          Some (map (\<lambda>i. decode tk (take 750 (drop (i * 700) (encode tk u)))) [0..<n])"
    and ne: "encode tk u \<noteq> [] \<longrightarrow> 0 < n \<and> length (encode tk u) \<le> (n - 1) * 700 + 750"
    by blast
  have big: "1000 < length (encode tk u)"
    using assms by (simp add: count_tokens_def MAX_CHUNK_SIZE_def)
  then have "encode tk u \<noteq> []" by auto
  with ne have n: "0 < n" and reach: "length (encode tk u) \<le> (n - 1) * 700 + 750" by auto
  have "2 \<le> n"
  proof (rule ccontr)
    assume "\<not> 2 \<le> n"
    then have "n = 1" using n by simp
    then show False using reach big by simp
  qed
  then show ?thesis using r by (intro exI[of _ "map (\<lambda>i. decode tk (take 750 (drop (i * 700) (encode tk u)))) [0..<n]"]) simp
qed

text \<open>
  The first loop of \<open>chunk_document\<close> returns: each unit is kept, or replaced by its
  windows.
\<close>

lemma final_loop_units:
  "\<exists>wss. final_loop tk units acc = Some (acc @ concat wss)
        \<and> list_all2 (\<lambda>u ws. if count_tokens tk u > MAX_CHUNK_SIZE
                              then 2 \<le> length ws
                                 \<and> ws = map (\<lambda>i. decode tk (take 750 (drop (i * 700) (encode tk u))))
                                          [0..<length ws]
                              else ws = [u]) units wss"
proof (induction units arbitrary: acc)
  case Nil
  then show ?case by simp
next
  case (Cons u units)
  let ?P = "\<lambda>u ws. if count_tokens tk u > MAX_CHUNK_SIZE
                              then 2 \<le> length ws
                                 \<and> ws = map (\<lambda>i. decode tk (take 750 (drop (i * 700) (encode tk u))))
                                          [0..<length ws]
                              else ws = [u]"
  show ?case
  proof (cases "count_tokens tk u > MAX_CHUNK_SIZE")
    case True
    from slicer_fixed_configuration_oversized[OF True] obtain ws where
      ws: "split_text_by_tokens tk u TARGET_CHUNK_SIZE OVERLAP_SIZE = Some ws"
      and sh: "2 \<le> length ws"
              "ws = map (\<lambda>i. decode tk (take 750 (drop (i * 700) (encode tk u)))) [0..<length ws]"
      by blast
    from Cons.IH[of "acc @ ws"] obtain wss where
      r: "final_loop tk units (acc @ ws) = Some ((acc @ ws) @ concat wss)"
      and a: "list_all2 ?P units wss" by blast
    have "?P u ws" using True sh by simp
    then have "list_all2 ?P (u # units) (ws # wss)" using a by simp
    moreover have "final_loop tk (u # units) acc = Some (acc @ concat (ws # wss))"
      using True ws r by simp
    ultimately show ?thesis by blast
  next
    case False
    from Cons.IH[of "acc @ [u]"] obtain wss where
      r: "final_loop tk units (acc @ [u]) = Some ((acc @ [u]) @ concat wss)"
      and a: "list_all2 ?P units wss" by blast
    have "?P u [u]" using False by simp
    then have "list_all2 ?P (u # units) ([u] # wss)" using a by simp
    moreover have "final_loop tk (u # units) acc = Some (acc @ concat ([u] # wss))"
      using False r by simp
    ultimately show ?thesis by blast
  qed
qed

lemma run_chunk_document:
  assumes "final_loop tk (chunk_by_paragraphs tk (key_content d) TARGET_CHUNK_SIZE) [] = Some final_chunks"
  shows "run_state (chunk_document tk) d =
           (Some (map (\<lambda>(idx, chunk_text).
                     fst (run_state (make_chunk tk (key_id d) (length final_chunks) idx chunk_text) d))
                   (enumerate 0 final_chunks)), d)"
  using assms by (simp add: chunk_document_def getitem_def run_build_loop)

lemma chunk_document_returns:
  "\<exists>final_chunks. final_loop tk (chunk_by_paragraphs tk (key_content d) TARGET_CHUNK_SIZE) [] = Some final_chunks"
  using final_loop_units[of tk _ "[]"] by blast

lemma chunks_of_records:
  assumes "final_loop tk (chunk_by_paragraphs tk (key_content d) TARGET_CHUNK_SIZE) [] = Some final_chunks"
  shows "chunks_of tk d =
           Some (map (\<lambda>(idx, chunk_text).
                     fst (run_state (make_chunk tk (key_id d) (length final_chunks) idx chunk_text) d))
                   (enumerate 0 final_chunks))"
  using run_chunk_document[OF assms] by (simp add: chunks_of_def)


section \<open>Claims about the chunk records\<close>

text \<open>
  Claim C2, amended. The code has no configuration error and no clamp; its configuration
  is the fixed constants, with \<open>0 \<le> OVERLAP_SIZE < TARGET_CHUNK_SIZE \<le> MAX_CHUNK_SIZE\<close>.
  With them the loop of the slicer never spins: on every sequence of tokens it leaves
  after finitely many windows, window \<open>i\<close> starting at offset \<open>700 * i\<close>. So neither
  the slicer nor \<open>chunk_document\<close> ever loops (\<open>None\<close> is the run that never leaves):
  whenever the tokenizer returns on the texts it is given, they return.
\<close>

theorem C2_fixed_configuration_never_loops:
  "0 \<le> OVERLAP_SIZE \<and> OVERLAP_SIZE < TARGET_CHUNK_SIZE \<and> TARGET_CHUNK_SIZE \<le> MAX_CHUNK_SIZE
   \<and> (\<exists>n. split_loop dec tokens TARGET_CHUNK_SIZE OVERLAP_SIZE 0 [] =
            Some (map (\<lambda>i. dec (take 750 (drop (i * 700) tokens))) [0..<n]))
   \<and> split_text_by_tokens tk text TARGET_CHUNK_SIZE OVERLAP_SIZE \<noteq> None
   \<and> chunks_of tk d \<noteq> None"
proof -
  have cfg: "0 \<le> OVERLAP_SIZE \<and> OVERLAP_SIZE < TARGET_CHUNK_SIZE \<and> TARGET_CHUNK_SIZE \<le> MAX_CHUNK_SIZE"
    by (simp add: OVERLAP_SIZE_def TARGET_CHUNK_SIZE_def MAX_CHUNK_SIZE_def)
  have c: "(0::int) < 750" "(0::int) \<le> 50" "(50::int) < 750" "(0::int) \<le> 0" by simp_all
  from split_loop_windows[OF c, of dec tokens "[]"] obtain n where
    "split_loop dec tokens 750 50 0 [] =
       Some ([] @ map (\<lambda>i. dec (take (nat 750) (drop (nat (0 + int i * (750 - 50))) tokens))) [0..<n])"
    by blast
  moreover have "nat (0 + int i * (750 - 50)) = i * 700" for i
    by (simp add: nat_mult_distrib)
  ultimately have "split_loop dec tokens 750 50 0 [] =
       Some (map (\<lambda>i. dec (take 750 (drop (i * 700) tokens))) [0..<n])"
    by simp
  then have loop: "\<exists>n. split_loop dec tokens TARGET_CHUNK_SIZE OVERLAP_SIZE 0 [] =
            Some (map (\<lambda>i. dec (take 750 (drop (i * 700) tokens))) [0..<n])"
    unfolding TARGET_CHUNK_SIZE_def OVERLAP_SIZE_def by blast
  have slicer: "split_text_by_tokens tk text TARGET_CHUNK_SIZE OVERLAP_SIZE \<noteq> None"
    using slicer_fixed_configuration[of tk "text"] by auto
  from chunk_document_returns[of tk d] obtain fc where
    "final_loop tk (chunk_by_paragraphs tk (key_content d) TARGET_CHUNK_SIZE) [] = Some fc" by blast
  from chunks_of_records[OF this] have "chunks_of tk d \<noteq> None" by simp
  then show ?thesis using cfg loop slicer by blast
qed

text \<open>
  Claim C9. \<open>chunk_document\<close> leaves the document it was given as it was: every key
  holds the value it held before the call.
\<close>

theorem C9_document_unchanged: "document_after tk d = d"
proof -
  from chunk_document_returns[of tk d] obtain fc where
    "final_loop tk (chunk_by_paragraphs tk (key_content d) TARGET_CHUNK_SIZE) [] = Some fc" by blast
  from run_chunk_document[OF this] show ?thesis by (simp add: document_after_def)
qed

text \<open>
  Claim C4. \<open>chunk_document\<close> returns on every document; if it returns \<open>N\<close> chunks,
  their \<open>chunk_index\<close> values are \<open>0, 1, ..., N - 1\<close> in this order, and every chunk
  has \<open>total_chunks = N\<close> in its metadata, the same index in its metadata, and the
  \<open>chunk_id\<close> made of the document's id, \<open>_chunk_\<close> and the decimal index.
\<close>

theorem C4_indices_total_and_ids:
  "\<exists>cs. chunks_of tk d = Some cs
       \<and> map chunk_index cs = [0..<length cs]
       \<and> (\<forall>c \<in> set cs. md_total_chunks (metadata c) = length cs
                        \<and> md_chunk_index (metadata c) = chunk_index c
                        \<and> chunk_id c = key_id d @ ''_chunk_'' @ str_nat (chunk_index c))"
proof -
  from chunk_document_returns[of tk d] obtain fc where
    fc: "final_loop tk (chunk_by_paragraphs tk (key_content d) TARGET_CHUNK_SIZE) [] = Some fc" by blast
  define cs where "cs = map (\<lambda>(idx, chunk_text).
                     fst (run_state (make_chunk tk (key_id d) (length fc) idx chunk_text) d))
                   (enumerate 0 fc)"
  have r: "chunks_of tk d = Some cs" unfolding cs_def by (rule chunks_of_records[OF fc])
  have len: "length cs = length fc" by (simp add: cs_def)
  have idx: "map chunk_index cs = map fst (enumerate 0 fc)"
    by (simp add: cs_def run_make_chunk case_prod_beta comp_def)
  have a: "map chunk_index cs = [0..<length cs]"
    unfolding idx len by (simp add: enumerate_eq_zip)
  have b: "\<forall>c \<in> set cs. md_total_chunks (metadata c) = length cs
                        \<and> md_chunk_index (metadata c) = chunk_index c
                        \<and> chunk_id c = key_id d @ ''_chunk_'' @ str_nat (chunk_index c)"
    unfolding len by (auto simp: cs_def run_make_chunk)
  show ?thesis using r a b by blast
qed

theorem C4_indices_total_and_ids_witness:
  "map_option (map chunk_index) (chunks_of char_tokenizer (sample_document ''ab'')) = Some [0]
   \<and> map_option (map chunk_id) (chunks_of char_tokenizer (sample_document ''ab'')) = Some [''doc_chunk_0'']
   \<and> map_option (map (\<lambda>c. md_total_chunks (metadata c))) (chunks_of char_tokenizer (sample_document ''ab'')) = Some [1]"
proof -
  from C4_indices_total_and_ids[of char_tokenizer "sample_document ''ab''"] obtain cs where
    r: "chunks_of char_tokenizer (sample_document ''ab'') = Some cs"
    and i: "map chunk_index cs = [0..<length cs]"
    and m: "\<forall>c \<in> set cs. md_total_chunks (metadata c) = length cs
                        \<and> md_chunk_index (metadata c) = chunk_index c
                        \<and> chunk_id c = key_id (sample_document ''ab'') @ ''_chunk_'' @ str_nat (chunk_index c)"
    by blast
  have "map_option length (chunks_of char_tokenizer (sample_document ''ab'')) = Some 1"
    by code_simp
  then have len: "length cs = 1" using r by simp
  then obtain c where cs: "cs = [c]" by (cases cs) auto
  have ci: "chunk_index c = 0" using i cs by simp
  have "chunk_id c = key_id (sample_document ''ab'') @ ''_chunk_'' @ str_nat 0"
    using m cs ci by simp
  then have cid: "chunk_id c = ''doc_chunk_0''"
    by (simp add: sample_document_def str_nat.simps digit_char_def)
  have tot: "md_total_chunks (metadata c) = 1" using m cs by simp
  show ?thesis using r cs ci cid tot by simp
qed

section \<open>Properties of the paragraph segmenter\<close>

text \<open>The pieces of a split hold only characters of the text.\<close>

lemma set_py_split_from:
  "p \<in> set (py_split_from sep cur s) \<Longrightarrow> set p \<subseteq> set cur \<union> set s"
proof (induction sep cur s rule: py_split_from.induct)
  case (1 sep cur s)
  show ?case
  proof (cases "s = []")
    case True
    then show ?thesis using "1.prems" by (subst (asm) py_split_from.simps) simp
  next
    case False
    note ne = this
    show ?thesis
    proof (cases "sep \<noteq> [] \<and> take (length sep) s = sep")
      case True
      then have "p = cur \<or> p \<in> set (py_split_from sep [] (drop (length sep) s))"
        using "1.prems" ne by (subst (asm) py_split_from.simps) auto
      then show ?thesis
      proof
        assume "p = cur"
        then show ?thesis by simp
      next
        assume "p \<in> set (py_split_from sep [] (drop (length sep) s))"
        from "1.IH"(1)[OF ne True this] have "set p \<subseteq> set (drop (length sep) s)" by simp
        then show ?thesis using set_drop_subset[of "length sep" s] by blast
      qed
    next
      case False
      then have "p \<in> set (py_split_from sep (cur @ [hd s]) (tl s))"
        using "1.prems" ne by (subst (asm) py_split_from.simps) auto
      from "1.IH"(2)[OF ne False this] have "set p \<subseteq> set (cur @ [hd s]) \<union> set (tl s)" .
      then show ?thesis using ne by (cases s) auto
    qed
  qed
qed

lemma strip_all_space:
  assumes "\<forall>c \<in> set p. is_space c"
  shows "strip p = []"
proof -
  have "dropWhile is_space p = []" using assms by simp
  then show ?thesis unfolding strip_def by (simp only: rev.simps dropWhile.simps)
qed

lemma paragraphs_of_blank:
  assumes "\<forall>c \<in> set text. is_space c"
  shows "paragraphs_of text = []"
proof -
  have "strip p = []" if "p \<in> set (py_split para_sep text)" for p
  proof -
    from set_py_split_from[OF that[unfolded py_split_def]] have "set p \<subseteq> set text" by simp
    then show ?thesis using assms by (intro strip_all_space) blast
  qed
  then show ?thesis by (simp add: paragraphs_of_def filter_empty_conv)
qed

lemma chunks_of_no_paragraphs:
  assumes "paragraphs_of (key_content d) = []"
  shows "chunks_of tk d = Some []"
proof -
  have "chunk_by_paragraphs tk (key_content d) TARGET_CHUNK_SIZE = []"
    using assms by (simp add: chunk_by_paragraphs_def)
  then have "final_loop tk (chunk_by_paragraphs tk (key_content d) TARGET_CHUNK_SIZE) [] = Some []"
    by simp
  from chunks_of_records[OF this] show ?thesis by (simp add: enumerate_eq_zip)
qed

text \<open>Splitting where the separator occurs, and where its first character does not.\<close>

lemma py_split_from_Nil: "py_split_from sep cur [] = [cur]"
  by (subst py_split_from.simps) simp

lemma py_split_from_at_sep:
  "sep \<noteq> [] \<Longrightarrow> py_split_from sep cur (sep @ s) = cur # py_split_from sep [] s"
  by (subst py_split_from.simps) simp

lemma py_split_from_skip:
  assumes "sep \<noteq> []" "hd sep \<notin> set xs"
  shows "py_split_from sep cur (xs @ s) = py_split_from sep (cur @ xs) s"
  using assms(2)
proof (induction xs arbitrary: cur)
  case Nil
  then show ?case by simp
next
  case (Cons x xs)
  have "take (length sep) (x # xs @ s) \<noteq> sep"
  proof
    assume e: "take (length sep) (x # xs @ s) = sep"
    obtain c cs where sep: "sep = c # cs" using assms(1) by (cases sep) auto
    from e have "x = c" unfolding sep by simp
    then show False using Cons.prems sep by simp
  qed
  then have "py_split_from sep cur ((x # xs) @ s) = py_split_from sep (cur @ [x]) (xs @ s)"
    by (subst py_split_from.simps) simp
  also have "\<dots> = py_split_from sep ((cur @ [x]) @ xs) s"
    using Cons.prems by (intro Cons.IH) simp
  finally show ?case by simp
qed

lemma py_split_no_sep:
  assumes "sep \<noteq> []" "hd sep \<notin> set s"
  shows "py_split sep s = [s]"
  using py_split_from_skip[OF assms, of "[]" "[]"] by (simp add: py_split_def py_split_from_Nil)

lemma py_split_two:
  assumes "sep \<noteq> []" "hd sep \<notin> set a" "hd sep \<notin> set b"
  shows "py_split sep (a @ sep @ b) = [a, b]"
proof -
  have "py_split sep (a @ sep @ b) = py_split_from sep a (sep @ b)"
    using py_split_from_skip[OF assms(1,2), of "[]" "sep @ b"] by (simp add: py_split_def)
  also have "\<dots> = a # py_split_from sep [] b" by (rule py_split_from_at_sep[OF assms(1)])
  also have "py_split_from sep [] b = [b]"
    using py_split_no_sep[OF assms(1,3)] by (simp add: py_split_def)
  finally show ?thesis .
qed

lemma strip_id:
  assumes "s \<noteq> []" "\<not> is_space (hd s)" "\<not> is_space (last s)"
  shows "strip s = s"
proof -
  have a: "dropWhile is_space s = s" using assms(2) by (simp add: dropWhile_eq_self_iff)
  have b: "dropWhile is_space (rev s) = rev s"
    using assms(1,3) by (simp add: dropWhile_eq_self_iff hd_rev)
  show ?thesis unfolding strip_def a b by simp
qed

lemma paragraphs_of_two:
  assumes "CHR 0x0A \<notin> set a" "CHR 0x0A \<notin> set b" "strip a = a" "strip b = b" "a \<noteq> []" "b \<noteq> []"
  shows "paragraphs_of (a @ para_sep @ b) = [a, b]"
proof -
  have "py_split para_sep (a @ para_sep @ b) = [a, b]"
    by (rule py_split_two) (use assms(1,2) in \<open>simp_all add: para_sep_def\<close>)
  then show ?thesis using assms(3-6) by (simp add: paragraphs_of_def)
qed

lemma paragraphs_of_one:
  assumes "CHR 0x0A \<notin> set a" "strip a = a" "a \<noteq> []"
  shows "paragraphs_of a = [a]"
proof -
  have "py_split para_sep a = [a]"
    by (rule py_split_no_sep) (use assms(1) in \<open>simp_all add: para_sep_def\<close>)
  then show ?thesis using assms(2,3) by (simp add: paragraphs_of_def)
qed

lemma sentences_of_one:
  assumes "CHR ''.'' \<notin> set p" "strip p = p" "p \<noteq> []"
  shows "sentences_of p = [p @ ''.'']"
proof -
  have "py_split ''.'' p = [p]"
    by (rule py_split_no_sep) (use assms(1) in simp_all)
  then show ?thesis using assms(2,3) by (simp add: sentences_of_def)
qed




section \<open>Properties of the paragraph packer\<close>

text \<open>
  Over paragraphs that are not oversized, from any state and whatever follows, the loop
  moves as the greedy rule does.
\<close>

lemma paragraph_loop_greedy:
  assumes "\<forall>p \<in> set ps. count_tokens tk p \<le> MAX_CHUNK_SIZE"
  shows "paragraph_loop tk target_size (ps @ rest) (chunks @ map (py_join para_sep) units) cur ctok =
           (case greedy_pack (count_tokens tk) target_size ps units cur ctok of
              (units', current_group, running_total) \<Rightarrow>
                paragraph_loop tk target_size rest (chunks @ map (py_join para_sep) units')
                  current_group running_total)"
  using assms
proof (induction ps arbitrary: units cur ctok)
  case Nil
  then show ?case by simp
next
  case (Cons p ps)
  then have small: "\<not> count_tokens tk p > MAX_CHUNK_SIZE"
    and rest: "\<forall>p \<in> set ps. count_tokens tk p \<le> MAX_CHUNK_SIZE" by auto
  show ?case
  proof (cases "ctok + count_tokens tk p > target_size \<and> cur \<noteq> []")
    case True
    have "paragraph_loop tk target_size ((p # ps) @ rest) (chunks @ map (py_join para_sep) units) cur ctok
            = paragraph_loop tk target_size (ps @ rest)
                (chunks @ map (py_join para_sep) (units @ [cur])) [p] (count_tokens tk p)"
      using True small by (simp add: Let_def)
    also have "\<dots> = (case greedy_pack (count_tokens tk) target_size ps (units @ [cur]) [p] (count_tokens tk p) of
              (units', current_group, running_total) \<Rightarrow>
                paragraph_loop tk target_size rest (chunks @ map (py_join para_sep) units')
                  current_group running_total)"
      by (rule Cons.IH[OF rest])
    also have "greedy_pack (count_tokens tk) target_size ps (units @ [cur]) [p] (count_tokens tk p)
                 = greedy_pack (count_tokens tk) target_size (p # ps) units cur ctok"
      using True by simp
    finally show ?thesis .
  next
    case False
    then have no: "\<not> (ctok + count_tokens tk p > target_size \<and> cur \<noteq> [])" .
    have "paragraph_loop tk target_size ((p # ps) @ rest) (chunks @ map (py_join para_sep) units) cur ctok
            = paragraph_loop tk target_size (ps @ rest)
                (chunks @ map (py_join para_sep) units) (cur @ [p]) (ctok + count_tokens tk p)"
      using no small by (simp add: Let_def del: de_Morgan_conj)
    also have "\<dots> = (case greedy_pack (count_tokens tk) target_size ps units (cur @ [p]) (ctok + count_tokens tk p) of
              (units', current_group, running_total) \<Rightarrow>
                paragraph_loop tk target_size rest (chunks @ map (py_join para_sep) units')
                  current_group running_total)"
      by (rule Cons.IH[OF rest])
    also have "greedy_pack (count_tokens tk) target_size ps units (cur @ [p]) (ctok + count_tokens tk p)
                 = greedy_pack (count_tokens tk) target_size (p # ps) units cur ctok"
      using no by (simp del: de_Morgan_conj)
    finally show ?thesis .
  qed
qed

lemma concat_greedy_pack:
  "concat (flush_group (greedy_pack cnt target_size ps units cur tot)) = concat units @ cur @ ps"
  by (induction ps arbitrary: units cur tot) (auto simp: flush_group_def)

text \<open>Paragraphs that fit the target together stay in one group.\<close>

lemma count_tokens_nonneg: "0 \<le> count_tokens tk s"
  by (simp add: count_tokens_def)

lemma paragraph_loop_fits:
  assumes "0 \<le> ctok" "ctok + sum_list (map (count_tokens tk) ps) \<le> target_size"
    and "target_size \<le> MAX_CHUNK_SIZE"
  shows "paragraph_loop tk target_size ps chunks cur ctok =
           (chunks, cur @ ps, ctok + sum_list (map (count_tokens tk) ps))"
  using assms(1,2)
proof (induction ps arbitrary: cur ctok)
  case Nil
  then show ?case by simp
next
  case (Cons p ps)
  have nn: "0 \<le> sum_list (map (count_tokens tk) ps)"
    by (rule sum_list_nonneg) (auto simp: count_tokens_nonneg)
  have p0: "0 \<le> count_tokens tk p" by (rule count_tokens_nonneg)
  have fit: "ctok + count_tokens tk p \<le> target_size" using Cons.prems nn by simp
  then have small: "\<not> count_tokens tk p > MAX_CHUNK_SIZE" using Cons.prems(1) assms(3) by linarith
  have a: "0 \<le> ctok + count_tokens tk p" using Cons.prems(1) p0 by simp
  have b: "(ctok + count_tokens tk p) + sum_list (map (count_tokens tk) ps) \<le> target_size"
    using Cons.prems(2) by simp
  show ?case using small fit Cons.IH[OF a b] by (simp add: Let_def)
qed

text \<open>Three small shapes of document, under the one-token-per-character tokenizer or any.\<close>

lemma chunks_of_two_paragraphs:
  assumes ps: "paragraphs_of (key_content d) = [a, b]"
    and la: "length a \<le> 1000" and lb: "length b \<le> 1000" and over: "750 < length a + length b"
  shows "map_option (map content) (chunks_of char_tokenizer d) = Some [a, b]"
proof -
  have ca: "count_tokens char_tokenizer a = int (length a)"
    and cb: "count_tokens char_tokenizer b = int (length b)"
    by (simp_all add: count_tokens_def char_tokenizer_def)
  have "paragraph_loop char_tokenizer TARGET_CHUNK_SIZE [a, b] [] [] 0 = ([a], [b], int (length b))"
    using la lb over by (simp add: Let_def ca cb MAX_CHUNK_SIZE_def TARGET_CHUNK_SIZE_def)
  then have units: "chunk_by_paragraphs char_tokenizer (key_content d) TARGET_CHUNK_SIZE = [a, b]"
    by (simp add: chunk_by_paragraphs_def ps)
  have "final_loop char_tokenizer (chunk_by_paragraphs char_tokenizer (key_content d) TARGET_CHUNK_SIZE) []
          = Some [a, b]"
    unfolding units using la lb by (simp add: Let_def ca cb MAX_CHUNK_SIZE_def)
  from chunks_of_records[OF this] show ?thesis
    by (simp add: enumerate_eq_zip run_make_chunk upt_rec)
qed


lemma units_of_one_large_paragraph_one_sentence:
  assumes ps: "paragraphs_of text = [p]"
    and big: "count_tokens tk p > MAX_CHUNK_SIZE"
    and ss: "sentences_of p = [s]"
  shows "chunk_by_paragraphs tk text TARGET_CHUNK_SIZE = [s]"
proof -
  have "split_large_paragraph tk p [] = [s]"
    by (simp add: split_large_paragraph_def ss Let_def)
  then have "paragraph_loop tk TARGET_CHUNK_SIZE [p] [] [] 0 = ([s], [], 0)"
    using big by (simp add: Let_def)
  then show ?thesis by (simp add: chunk_by_paragraphs_def ps)
qed

section \<open>Properties of the sentence fallback and of whole documents\<close>

text \<open>\<open>count_tokens\<close> is the length of the encoding.\<close>

lemma count_tokens_fun: "count_tokens tk = (\<lambda>s. int (length (encode tk s)))"
  by (rule ext) (simp add: count_tokens_def)

text \<open>A text of 751 to 1450 tokens is cut into exactly two windows.\<close>

lemma slicer_two_windows:
  assumes "750 < length (encode tk u)" "length (encode tk u) \<le> 1450"
  shows "split_text_by_tokens tk u TARGET_CHUNK_SIZE OVERLAP_SIZE =
           Some [decode tk (take 750 (encode tk u)), decode tk (take 750 (drop 700 (encode tk u)))]"
proof -
  have c: "(0::int) < 750" "(0::int) \<le> 50" "(50::int) < 750" by simp_all
  from token_windows_shape[OF c, of "encode tk u"] obtain n where
    ws: "token_windows (encode tk u) 750 50 =
           Some (map (\<lambda>i. take (nat 750) (drop (i * nat (750 - 50)) (encode tk u))) [0..<n])"
    and ne: "encode tk u \<noteq> [] \<longrightarrow> 0 < n \<and> length (encode tk u) \<le> (n - 1) * nat (750 - 50) + nat 750
                \<and> (\<forall>i. Suc i < n \<longrightarrow> i * nat (750 - 50) + nat 750 < length (encode tk u))"
    by blast
  have "encode tk u \<noteq> []" using assms(1) by auto
  with ne have n: "0 < n" and reach: "length (encode tk u) \<le> (n - 1) * 700 + 750"
    and mid: "\<forall>i. Suc i < n \<longrightarrow> i * 700 + 750 < length (encode tk u)" by auto
  have "n \<noteq> 1" using reach assms(1) by auto
  moreover have "\<not> Suc 1 < n" using mid assms(2) by fastforce
  ultimately have n2: "n = 2" using n by linarith
  have "[0..<n] = [0, 1]" unfolding n2 by (simp add: upt_rec)
  then have "split_text_by_tokens tk u 750 50 =
          Some [decode tk (take 750 (encode tk u)), decode tk (take 750 (drop 700 (encode tk u)))]"
    using split_text_by_tokens_windows[OF ws] by simp
  then show ?thesis by (simp add: TARGET_CHUNK_SIZE_def OVERLAP_SIZE_def)
qed

















lemma chunks_of_long_sentence:
  "map_option (map content) (chunks_of char_tokenizer (sample_document (replicate 1001 CHR ''a'')))
     = Some [replicate 750 CHR ''a'', replicate 301 CHR ''a'' @ ''.'']"
proof -
  define A where "A = replicate 1001 CHR ''a''"
  define S where "S = A @ ''.''"
  have st: "strip A = A" unfolding A_def by (rule strip_id) (simp_all add: is_space_def)
  have ne: "A \<noteq> []" by (simp add: A_def)
  have ps: "paragraphs_of A = [A]"
    by (rule paragraphs_of_one[OF _ st ne]) (simp add: A_def)
  have ss: "sentences_of A = [S]" unfolding S_def
    by (rule sentences_of_one[OF _ st ne]) (simp add: A_def)
  have bigA: "count_tokens char_tokenizer A > MAX_CHUNK_SIZE"
    by (simp add: A_def count_tokens_def char_tokenizer_def MAX_CHUNK_SIZE_def)
  have bigS: "count_tokens char_tokenizer S > MAX_CHUNK_SIZE"
    by (simp add: S_def A_def count_tokens_def char_tokenizer_def MAX_CHUNK_SIZE_def)
  have k: "key_content (sample_document A) = A" by (simp add: sample_document_def)
  have units: "chunk_by_paragraphs char_tokenizer (key_content (sample_document A)) TARGET_CHUNK_SIZE = [S]"
    unfolding k by (rule units_of_one_large_paragraph_one_sentence[OF ps bigA ss])
  have enc: "encode char_tokenizer S = S" by (simp add: char_tokenizer_def)
  have "split_text_by_tokens char_tokenizer S TARGET_CHUNK_SIZE OVERLAP_SIZE =
           Some [decode char_tokenizer (take 750 (encode char_tokenizer S)),
                 decode char_tokenizer (take 750 (drop 700 (encode char_tokenizer S)))]"
  proof (rule slicer_two_windows)
    show "750 < length (encode char_tokenizer S)" unfolding enc by (simp add: S_def A_def)
    show "length (encode char_tokenizer S) \<le> 1450" unfolding enc by (simp add: S_def A_def)
  qed
  then have sl: "split_text_by_tokens char_tokenizer S TARGET_CHUNK_SIZE OVERLAP_SIZE =
           Some [replicate 750 CHR ''a'', replicate 301 CHR ''a'' @ ''.'']"
    unfolding enc by (simp add: char_tokenizer_def S_def A_def)
  have "final_loop char_tokenizer (chunk_by_paragraphs char_tokenizer (key_content (sample_document A)) TARGET_CHUNK_SIZE) []
          = Some [replicate 750 CHR ''a'', replicate 301 CHR ''a'' @ ''.'']"
    unfolding units using bigS sl by simp
  from chunks_of_records[OF this] show ?thesis
    unfolding A_def by (simp add: enumerate_eq_zip run_make_chunk upt_rec)
qed

section \<open>Claims about the packer and whole documents\<close>

text \<open>
  Claim C3, as stated, fails: for the empty content \<open>chunk_document\<close> raises
  nothing and returns the empty list of chunks.
\<close>

theorem C3_empty_content_counterexample:
  "strip (key_content (sample_document '''')) = []
   \<and> chunks_of char_tokenizer (sample_document '''') = Some []"
  by code_simp

text \<open>
  Claim C3, amended. For every document whose content is empty or holds only
  whitespace, \<open>chunk_document\<close> returns the empty list of chunks.
\<close>

theorem C3_blank_content_yields_no_chunks:
  assumes "\<forall>c \<in> set (key_content d). is_space c"
  shows "chunks_of tk d = Some []"
  using chunks_of_no_paragraphs[OF paragraphs_of_blank[OF assms]] .

theorem C3_blank_content_yields_no_chunks_witness:
  "list_all is_space (key_content (sample_document ('' '' @ para_sep @ ''  '')))
   \<and> chunks_of char_tokenizer (sample_document ('' '' @ para_sep @ ''  '')) = Some []"
proof -
  have h: "\<forall>c \<in> set (key_content (sample_document ('' '' @ para_sep @ ''  ''))). is_space c"
    by (simp add: sample_document_def para_sep_def is_space_def)
  have r: "chunks_of char_tokenizer (sample_document ('' '' @ para_sep @ ''  '')) = Some []"
    by (rule C3_blank_content_yields_no_chunks[OF h])
  have l: "list_all is_space (key_content (sample_document ('' '' @ para_sep @ ''  '')))"
    using h by (simp only: list_all_iff)
  show ?thesis using l r by (rule conjI)
qed

text \<open>
  Claim C5. The \<open>token_count\<close> of every chunk returned is the number of tokens in the
  tokenizer's encoding of that chunk's own \<open>content\<close>: of the joined text for a chunk
  joined from several paragraphs, of the decoded window for a chunk cut by the slicer.
\<close>

theorem C5_token_count_of_own_content:
  "\<exists>cs. chunks_of tk d = Some cs
       \<and> (\<forall>c \<in> set cs. token_count c = int (length (encode tk (content c))))"
proof -
  from chunk_document_returns[of tk d] obtain fc where
    fc: "final_loop tk (chunk_by_paragraphs tk (key_content d) TARGET_CHUNK_SIZE) [] = Some fc" by blast
  show ?thesis
    unfolding chunks_of_records[OF fc] by (auto simp: run_make_chunk count_tokens_def)
qed

theorem C5_token_count_of_own_content_witness:
  "map_option (map (\<lambda>c. (content c, token_count c)))
       (chunks_of char_tokenizer (sample_document (''a'' @ para_sep @ ''b'')))
     = Some [(''a'' @ para_sep @ ''b'', 4)]
   \<and> map_option (map (\<lambda>c. (content c, token_count c)))
       (chunks_of char_tokenizer (sample_document (replicate 1001 CHR ''a'')))
     = Some [(replicate 750 CHR ''a'', 750), (replicate 301 CHR ''a'' @ ''.'', 302)]"
proof -
  have pair: "map (\<lambda>c. (content c, token_count c)) cs = map (\<lambda>x. (x, int (length x))) (map content cs)"
    if "\<forall>c \<in> set cs. token_count c = int (length (encode char_tokenizer (content c)))"
    for cs :: "chunk list"
    using that by (simp add: char_tokenizer_def)
  from C5_token_count_of_own_content[of char_tokenizer "sample_document (''a'' @ para_sep @ ''b'')"]
  obtain cs where r: "chunks_of char_tokenizer (sample_document (''a'' @ para_sep @ ''b'')) = Some cs"
    and t: "\<forall>c \<in> set cs. token_count c = int (length (encode char_tokenizer (content c)))"
    by blast
  have "map_option (map content) (chunks_of char_tokenizer (sample_document (''a'' @ para_sep @ ''b'')))
          = Some [''a'' @ para_sep @ ''b'']"
    by code_simp
  then have c: "map content cs = [''a'' @ para_sep @ ''b'']" using r by simp
  have j: "map_option (map (\<lambda>c. (content c, token_count c)))
       (chunks_of char_tokenizer (sample_document (''a'' @ para_sep @ ''b'')))
     = Some [(''a'' @ para_sep @ ''b'', 4)]"
    unfolding r using pair[OF t] c by (simp add: para_sep_def)
  from C5_token_count_of_own_content[of char_tokenizer "sample_document (replicate 1001 CHR ''a'')"]
  obtain cs' where r': "chunks_of char_tokenizer (sample_document (replicate 1001 CHR ''a'')) = Some cs'"
    and t': "\<forall>c \<in> set cs'. token_count c = int (length (encode char_tokenizer (content c)))"
    by blast
  have c': "map content cs' = [replicate 750 CHR ''a'', replicate 301 CHR ''a'' @ ''.'']"
    using chunks_of_long_sentence r' by simp
  have s: "map_option (map (\<lambda>c. (content c, token_count c)))
       (chunks_of char_tokenizer (sample_document (replicate 1001 CHR ''a'')))
     = Some [(replicate 750 CHR ''a'', 750), (replicate 301 CHR ''a'' @ ''.'', 302)]"
    unfolding r' using pair[OF t'] c' by simp
  show ?thesis using j s by (rule conjI)
qed

text \<open>
  Claim C8. Over any run of paragraphs none of which is above \<open>MAX_CHUNK_SIZE\<close>,
  started in any state of the loop and followed by any further paragraphs, the packer
  does what the greedy rule of the specification does: the chunks it has closed after the
  run are the rule's closed units, each joined by a blank line, and its current group
  and running total are the rule's. When the run is the whole text, the result of
  \<open>chunk_by_paragraphs\<close> is the rule's units with the trailing group flushed. The
  units, one after the other, are the paragraphs in document order.
\<close>

theorem C8_packer_is_greedy:
  assumes "\<forall>p \<in> set ps. count_tokens tk p \<le> MAX_CHUNK_SIZE"
  shows "paragraph_loop tk target_size (ps @ rest) chunks current_chunk current_tokens =
           (case greedy_pack (count_tokens tk) target_size ps [] current_chunk current_tokens of
              (units, current_group, running_total) \<Rightarrow>
                paragraph_loop tk target_size rest (chunks @ map (py_join para_sep) units)
                  current_group running_total)
       \<and> (paragraphs_of text = ps \<longrightarrow>
            chunk_by_paragraphs tk text target_size =
              map (py_join para_sep) (flush_group (greedy_pack (count_tokens tk) target_size ps [] [] 0)))
       \<and> concat (flush_group (greedy_pack (count_tokens tk) target_size ps [] current_chunk current_tokens))
           = current_chunk @ ps"
proof -
  have a: "paragraph_loop tk target_size (ps @ rest) chunks current_chunk current_tokens =
           (case greedy_pack (count_tokens tk) target_size ps [] current_chunk current_tokens of
              (units, current_group, running_total) \<Rightarrow>
                paragraph_loop tk target_size rest (chunks @ map (py_join para_sep) units)
                  current_group running_total)"
    using paragraph_loop_greedy[OF assms, of target_size rest chunks "[]" current_chunk current_tokens]
    by simp
  have b: "chunk_by_paragraphs tk text target_size =
             map (py_join para_sep) (flush_group (greedy_pack (count_tokens tk) target_size ps [] [] 0))"
    if "paragraphs_of text = ps"
    using paragraph_loop_greedy[OF assms, of target_size "[]" "[]" "[]" "[]" 0] that
    by (simp add: chunk_by_paragraphs_def flush_group_def split: prod.splits)
  have c: "concat (flush_group (greedy_pack (count_tokens tk) target_size ps [] current_chunk current_tokens))
           = current_chunk @ ps"
    by (simp add: concat_greedy_pack)
  show ?thesis using a b c by simp
qed

theorem C8_packer_is_greedy_witness:
  "list_all (\<lambda>p. count_tokens char_tokenizer p \<le> MAX_CHUNK_SIZE) [''a'', ''b'', ''c'']
   \<and> paragraphs_of (''a'' @ para_sep @ ''b'' @ para_sep @ ''c'') = [''a'', ''b'', ''c'']
   \<and> greedy_pack (count_tokens char_tokenizer) 2 [''a'', ''b'', ''c''] [] [] 0 = ([[''a'', ''b'']], [''c''], 1)
   \<and> paragraph_loop char_tokenizer 2 ([''a'', ''b'', ''c''] @ []) [] [] 0
        = ([''a'' @ para_sep @ ''b''], [''c''], 1)
   \<and> chunk_by_paragraphs char_tokenizer (''a'' @ para_sep @ ''b'' @ para_sep @ ''c'') 2
        = [''a'' @ para_sep @ ''b'', ''c'']"
proof -
  have l: "list_all (\<lambda>p. count_tokens char_tokenizer p \<le> MAX_CHUNK_SIZE) [''a'', ''b'', ''c'']"
    by code_simp
  then have h: "\<forall>p \<in> set [''a'', ''b'', ''c'']. count_tokens char_tokenizer p \<le> MAX_CHUNK_SIZE"
    by (simp only: list_all_iff)
  have ps: "paragraphs_of (''a'' @ para_sep @ ''b'' @ para_sep @ ''c'') = [''a'', ''b'', ''c'']"
    by code_simp
  have g: "greedy_pack (count_tokens char_tokenizer) 2 [''a'', ''b'', ''c''] [] [] 0
             = ([[''a'', ''b'']], [''c''], 1)"
    by code_simp
  from C8_packer_is_greedy[OF h, of 2 "[]" "[]" "[]" 0 "''a'' @ para_sep @ ''b'' @ para_sep @ ''c''"]
  have lp: "paragraph_loop char_tokenizer 2 ([''a'', ''b'', ''c''] @ []) [] [] 0
              = ([''a'' @ para_sep @ ''b''], [''c''], 1)"
    and cb: "chunk_by_paragraphs char_tokenizer (''a'' @ para_sep @ ''b'' @ para_sep @ ''c'') 2
              = [''a'' @ para_sep @ ''b'', ''c'']"
    unfolding g using ps by (simp_all add: flush_group_def)
  show ?thesis using l ps g lp cb by blast
qed

text \<open>
  Claim C1, as stated, fails in two ways. A content of two characters, a space and a
  letter, yields one chunk that holds the letter only. A content of two paragraphs of
  400 tokens each has 802 tokens, at most \<open>MAX_CHUNK_SIZE\<close>, and yields two chunks.
\<close>

theorem C1_one_chunk_counterexample:
  "count_tokens char_tokenizer (key_content (sample_document '' a'')) \<le> MAX_CHUNK_SIZE
   \<and> map_option (map content) (chunks_of char_tokenizer (sample_document '' a'')) = Some [''a'']
   \<and> count_tokens char_tokenizer
        (key_content (sample_document (replicate 400 CHR ''a'' @ para_sep @ replicate 400 CHR ''b'')))
        \<le> MAX_CHUNK_SIZE
   \<and> map_option (map content)
        (chunks_of char_tokenizer (sample_document (replicate 400 CHR ''a'' @ para_sep @ replicate 400 CHR ''b'')))
        = Some [replicate 400 CHR ''a'', replicate 400 CHR ''b'']"
proof -
  have s1: "count_tokens char_tokenizer (key_content (sample_document '' a'')) \<le> MAX_CHUNK_SIZE"
    by code_simp
  have s2: "map_option (map content) (chunks_of char_tokenizer (sample_document '' a'')) = Some [''a'']"
    by code_simp
  have t1: "count_tokens char_tokenizer
        (key_content (sample_document (replicate 400 CHR ''a'' @ para_sep @ replicate 400 CHR ''b'')))
        \<le> MAX_CHUNK_SIZE"
    by (simp add: count_tokens_def char_tokenizer_def sample_document_def para_sep_def MAX_CHUNK_SIZE_def)
  have sa: "strip (replicate 400 CHR ''a'') = replicate 400 CHR ''a''"
    by (rule strip_id) (simp_all add: is_space_def)
  have sb: "strip (replicate 400 CHR ''b'') = replicate 400 CHR ''b''"
    by (rule strip_id) (simp_all add: is_space_def)
  have ps: "paragraphs_of (key_content (sample_document (replicate 400 CHR ''a'' @ para_sep @ replicate 400 CHR ''b'')))
              = [replicate 400 CHR ''a'', replicate 400 CHR ''b'']"
    unfolding sample_document_def
    using paragraphs_of_two[of "replicate 400 CHR ''a''" "replicate 400 CHR ''b''"] sa sb
    by simp
  have t2: "map_option (map content)
        (chunks_of char_tokenizer (sample_document (replicate 400 CHR ''a'' @ para_sep @ replicate 400 CHR ''b'')))
        = Some [replicate 400 CHR ''a'', replicate 400 CHR ''b'']"
    by (rule chunks_of_two_paragraphs[OF ps]) simp_all
  show ?thesis using s1 s2 t1 t2 by blast
qed

text \<open>
  Claim C1, amended. For every document whose content is not empty, is equal to its own
  paragraphs (trimmed, the empty ones dropped) joined by one blank line, has one
  paragraph only or paragraphs whose token counts add up to at most
  \<open>TARGET_CHUNK_SIZE\<close>, and whose whole content has at most \<open>MAX_CHUNK_SIZE\<close> tokens,
  \<open>chunk_document\<close> returns exactly one chunk, and its content is the document's
  content.
\<close>

theorem C1_one_chunk_when_paragraphs_stay_together:
  assumes "key_content d \<noteq> []"
    and "py_join para_sep (paragraphs_of (key_content d)) = key_content d"
    and "length (paragraphs_of (key_content d)) = 1
         \<or> sum_list (map (\<lambda>p. int (length (encode tk p))) (paragraphs_of (key_content d)))
             \<le> TARGET_CHUNK_SIZE"
    and "int (length (encode tk (key_content d))) \<le> MAX_CHUNK_SIZE"
  shows "\<exists>c. chunks_of tk d = Some [c] \<and> content c = key_content d"
proof -
  have ne: "paragraphs_of (key_content d) \<noteq> []" using assms(1,2) by auto
  have whole: "count_tokens tk (key_content d) \<le> MAX_CHUNK_SIZE"
    using assms(4) by (simp add: count_tokens_def)
  have loop: "\<exists>n. paragraph_loop tk TARGET_CHUNK_SIZE (paragraphs_of (key_content d)) [] [] 0 =
                ([], paragraphs_of (key_content d), n)"
    using assms(3)
  proof
    assume "length (paragraphs_of (key_content d)) = 1"
    then obtain p where p: "paragraphs_of (key_content d) = [p]"
      by (cases "paragraphs_of (key_content d)") auto
    then have "p = key_content d" using assms(2) by simp
    then have "\<not> count_tokens tk p > MAX_CHUNK_SIZE" using whole by simp
    then show ?thesis unfolding p by (simp add: Let_def)
  next
    assume "sum_list (map (\<lambda>p. int (length (encode tk p))) (paragraphs_of (key_content d)))
             \<le> TARGET_CHUNK_SIZE"
    then have s: "0 + sum_list (map (count_tokens tk) (paragraphs_of (key_content d))) \<le> TARGET_CHUNK_SIZE"
      by (simp add: count_tokens_fun)
    have tm: "TARGET_CHUNK_SIZE \<le> MAX_CHUNK_SIZE"
      by (simp add: TARGET_CHUNK_SIZE_def MAX_CHUNK_SIZE_def)
    have "paragraph_loop tk TARGET_CHUNK_SIZE (paragraphs_of (key_content d)) [] [] 0 =
          ([], [] @ paragraphs_of (key_content d),
           0 + sum_list (map (count_tokens tk) (paragraphs_of (key_content d))))"
      by (rule paragraph_loop_fits[OF _ s tm]) simp
    then show ?thesis by simp
  qed
  then have units: "chunk_by_paragraphs tk (key_content d) TARGET_CHUNK_SIZE = [key_content d]"
    using ne assms(2) by (auto simp: chunk_by_paragraphs_def)
  have "final_loop tk (chunk_by_paragraphs tk (key_content d) TARGET_CHUNK_SIZE) [] = Some [key_content d]"
    unfolding units using whole by simp
  from chunks_of_records[OF this] show ?thesis
    by (simp add: enumerate_eq_zip run_make_chunk)
qed

theorem C1_one_chunk_when_paragraphs_stay_together_witness:
  "key_content (sample_document (replicate 800 CHR ''a'')) \<noteq> []
   \<and> py_join para_sep (paragraphs_of (key_content (sample_document (replicate 800 CHR ''a''))))
       = key_content (sample_document (replicate 800 CHR ''a''))
   \<and> length (paragraphs_of (key_content (sample_document (replicate 800 CHR ''a'')))) = 1
   \<and> TARGET_CHUNK_SIZE < int (length (encode char_tokenizer (key_content (sample_document (replicate 800 CHR ''a'')))))
   \<and> int (length (encode char_tokenizer (key_content (sample_document (replicate 800 CHR ''a''))))) \<le> MAX_CHUNK_SIZE
   \<and> (\<exists>c. chunks_of char_tokenizer (sample_document (replicate 800 CHR ''a'')) = Some [c]
            \<and> content c = replicate 800 CHR ''a'')
   \<and> key_content (sample_document (''a'' @ para_sep @ ''b'')) \<noteq> []
   \<and> py_join para_sep (paragraphs_of (key_content (sample_document (''a'' @ para_sep @ ''b''))))
       = key_content (sample_document (''a'' @ para_sep @ ''b''))
   \<and> length (paragraphs_of (key_content (sample_document (''a'' @ para_sep @ ''b'')))) = 2
   \<and> sum_list (map (\<lambda>p. int (length (encode char_tokenizer p)))
         (paragraphs_of (key_content (sample_document (''a'' @ para_sep @ ''b''))))) \<le> TARGET_CHUNK_SIZE
   \<and> int (length (encode char_tokenizer (key_content (sample_document (''a'' @ para_sep @ ''b''))))) \<le> MAX_CHUNK_SIZE
   \<and> (\<exists>c. chunks_of char_tokenizer (sample_document (''a'' @ para_sep @ ''b'')) = Some [c]
            \<and> content c = ''a'' @ para_sep @ ''b'')"
proof -
  define A where "A = replicate 800 CHR ''a''"
  have kA: "key_content (sample_document A) = A" by (simp add: sample_document_def)
  have st: "strip A = A" unfolding A_def by (rule strip_id) (simp_all add: is_space_def)
  have neA: "A \<noteq> []" by (simp add: A_def)
  have psA: "paragraphs_of A = [A]"
    by (rule paragraphs_of_one[OF _ st neA]) (simp add: A_def)
  have a1: "key_content (sample_document A) \<noteq> []" using neA kA by simp
  have a2: "py_join para_sep (paragraphs_of (key_content (sample_document A))) = key_content (sample_document A)"
    by (simp add: kA psA)
  have a3: "length (paragraphs_of (key_content (sample_document A))) = 1" by (simp add: kA psA)
  have a4: "int (length (encode char_tokenizer (key_content (sample_document A)))) \<le> MAX_CHUNK_SIZE"
    unfolding kA by (simp add: A_def char_tokenizer_def MAX_CHUNK_SIZE_def)
  have a5: "TARGET_CHUNK_SIZE < int (length (encode char_tokenizer (key_content (sample_document A))))"
    unfolding kA by (simp add: A_def char_tokenizer_def TARGET_CHUNK_SIZE_def)
  from C1_one_chunk_when_paragraphs_stay_together[OF a1 a2 disjI1[OF a3] a4]
  have ra: "\<exists>c. chunks_of char_tokenizer (sample_document A) = Some [c] \<and> content c = A"
    unfolding kA .
  let ?D = "sample_document (''a'' @ para_sep @ ''b'')"
  have k: "key_content ?D = ''a'' @ para_sep @ ''b''" by (simp add: sample_document_def)
  have h1: "key_content ?D \<noteq> []" by code_simp
  have h2: "py_join para_sep (paragraphs_of (key_content ?D)) = key_content ?D" by code_simp
  have h3: "sum_list (map (\<lambda>p. int (length (encode char_tokenizer p))) (paragraphs_of (key_content ?D)))
              \<le> TARGET_CHUNK_SIZE" by code_simp
  have h4: "int (length (encode char_tokenizer (key_content ?D))) \<le> MAX_CHUNK_SIZE" by code_simp
  have h5: "length (paragraphs_of (key_content ?D)) = 2" by code_simp
  from C1_one_chunk_when_paragraphs_stay_together[OF h1 h2 disjI2[OF h3] h4]
  have rb: "\<exists>c. chunks_of char_tokenizer ?D = Some [c] \<and> content c = ''a'' @ para_sep @ ''b''"
    unfolding k .
  show ?thesis
    using a1 a2 a3 a4 a5 ra h1 h2 h3 h4 h5 rb unfolding A_def by blast
qed




end
